theory Spec2Isabelle
  imports Complex_Main "HOL-Library.AList" "HOL-Library.Code_Target_Nat"
begin

section \<open>Data model of the alert bot\<close>

text \<open>
  The model follows the first program text of src/app.js (lines 1 to 533), the one with
  the three kinds of alerts; line numbers are those of that file.
\<close>

text \<open>
  JavaScript numbers are modelled as rationals: the properties below compare and average
  them, and
  the rounding of IEEE doubles and the infinities are left out. \<open>parseFloat\<close> is a
  library primitive; its result on a field of the fetched object is the model's input,
  with \<open>None\<close> standing for NaN.
\<close>

type_synonym num = rat

datatype direction = ABOVE | BELOW

record price_alert =
  p_stockCode :: string
  direction :: direction
  targetPrice :: num

record change_alert =
  c_stockCode :: string
  changePercent :: num

record volume_alert =
  v_stockCode :: string
  multiplier :: num

text \<open>
  A JavaScript \<open>Map\<close> keeps its keys in insertion order and holds each key once. It is an
  association list: \<open>get\<close> is \<open>map_of\<close>, \<open>set\<close> is \<open>AList.update\<close> (in place for a
  key that is present, at the end for a new one), \<open>delete\<close> is \<open>AList.delete\<close>.
\<close>

type_synonym 'v jsmap = "(string \<times> 'v) list"

record bot_state =
  userPriceAlerts :: "price_alert list jsmap"
  userVolumeAlerts :: "volume_alert list jsmap"
  userChangeAlerts :: "change_alert list jsmap"
  volumeHistory :: "num list jsmap"

definition initial_state :: bot_state where
  "initial_state = \<lparr>userPriceAlerts = [], userVolumeAlerts = [], userChangeAlerts = [],
     volumeHistory = []\<rparr>"


definition VOLUME_HISTORY_LIMIT :: nat where
  "VOLUME_HISTORY_LIMIT = 20"

definition VOLUME_MIN_SAMPLES :: nat where
  "VOLUME_MIN_SAMPLES = 3"

text \<open>
  The object returned by the quote source, reduced to the three fields the evaluator
  reads: \<open>parsed_z\<close> is \<open>parseFloat(stockData.z)\<close> (last trade price), \<open>parsed_y\<close> is
  \<open>parseFloat(stockData.y)\<close> (previous close), \<open>parsed_v\<close> is \<open>parseFloat(stockData.v)\<close>
  (volume).
\<close>

record stock_data =
  parsed_z :: "num option"
  parsed_y :: "num option"
  parsed_v :: "num option"

text \<open>
  \<open>fetchStockData\<close>: the request throws (\<open>Threw\<close>), the answer has no \<open>msgArray\<close> entry
  and the function returns null (\<open>Null\<close>), or it returns the first entry (\<open>Data\<close>).
\<close>

datatype fetch_result = Threw | Null | Data stock_data

text \<open>\<open>x || d\<close> on numbers: NaN and 0 are falsy.\<close>

definition num_or :: "num option \<Rightarrow> num \<Rightarrow> num" where
  "num_or x d = (case x of None \<Rightarrow> d | Some n \<Rightarrow> if n = 0 then d else n)"

definition currentPrice :: "stock_data \<Rightarrow> num" where
  "currentPrice d = num_or (parsed_z d) 0"

definition previousClose :: "stock_data \<Rightarrow> num" where
  "previousClose d = num_or (parsed_y d) (currentPrice d)"

definition priceChange :: "stock_data \<Rightarrow> num" where
  "priceChange d = currentPrice d - previousClose d"

definition percentageChange :: "stock_data \<Rightarrow> num" where
  "percentageChange d =
     (if previousClose d \<noteq> 0 then priceChange d / previousClose d * 100 else 0)"

definition currentVolume :: "stock_data \<Rightarrow> num" where
  "currentVolume d = num_or (parsed_v d) 0"

text \<open>
  The text pushed to a user, reduced to the values interpolated into it (stock code,
  direction, target price and current price; stock code and percentage change; stock code,
  current volume and multiplier). The display name and the \<open>toFixed\<close> formatting are left out.
\<close>

datatype message =
  PriceAlertMsg string direction num num
| ChangeAlertMsg string num
| VolumeAlertMsg string num num

type_synonym push = "string \<times> message"

datatype log_entry = FetchFailed string | PushFailed string message

section \<open>The evaluation cycle: checkAlerts\<close>

definition price_trigger :: "num \<Rightarrow> price_alert \<Rightarrow> bool" where
  "price_trigger cp alert \<longleftrightarrow>
     (direction alert = ABOVE \<and> cp \<ge> targetPrice alert) \<or>
     (direction alert = BELOW \<and> cp \<le> targetPrice alert)"

definition change_trigger :: "num \<Rightarrow> change_alert \<Rightarrow> bool" where
  "change_trigger pct alert \<longleftrightarrow> \<bar>pct\<bar> \<ge> changePercent alert"

definition averageVolume :: "num list \<Rightarrow> num" where
  "averageVolume history =
     (if length history > 0 then foldl (+) 0 history / of_nat (length history) else 0)"

definition volume_trigger :: "num list \<Rightarrow> num \<Rightarrow> volume_alert \<Rightarrow> bool" where
  "volume_trigger history cv alert \<longleftrightarrow>
     (if length history \<ge> VOLUME_MIN_SAMPLES \<and> averageVolume history > 0
      then cv \<ge> averageVolume history * multiplier alert
      else False)"

text \<open>Lines 291 to 295: the new window of an identifier.\<close>

definition append_history :: "num list \<Rightarrow> num \<Rightarrow> num list" where
  "append_history history cv =
     (let h = history @ [cv]
      in if length h > VOLUME_HISTORY_LIMIT then drop (length h - VOLUME_HISTORY_LIMIT) h
         else h)"

text \<open>
  The inner loop over one user's alerts, the same for the three kinds: an alert on another
  identifier is kept, an alert that triggers is pushed to the user and dropped, any other
  alert is kept. The result is the array \<open>remaining\<close> and the pushes, both in loop order.
\<close>

fun scan_alerts ::
  "('a \<Rightarrow> string) \<Rightarrow> ('a \<Rightarrow> bool) \<Rightarrow> ('a \<Rightarrow> message) \<Rightarrow> string \<Rightarrow> string \<Rightarrow> 'a list
     \<Rightarrow> 'a list \<times> push list" where
  "scan_alerts code_of trig mk stockCode userId [] = ([], [])"
| "scan_alerts code_of trig mk stockCode userId (alert # alerts) =
     (let (remaining, pushes) = scan_alerts code_of trig mk stockCode userId alerts
      in if code_of alert \<noteq> stockCode then (alert # remaining, pushes)
         else if trig alert then (remaining, (userId, mk alert) # pushes)
         else (alert # remaining, pushes))"

text \<open>
  The outer loop over the entries of one registry map: each user's array is replaced by
  \<open>remaining\<close>, or the user is deleted when nothing remains.
\<close>

definition alert_step ::
  "('a \<Rightarrow> string) \<Rightarrow> ('a \<Rightarrow> bool) \<Rightarrow> ('a \<Rightarrow> message) \<Rightarrow> string
     \<Rightarrow> 'a list jsmap \<times> push list \<Rightarrow> string \<times> 'a list \<Rightarrow> 'a list jsmap \<times> push list" where
  "alert_step code_of trig mk stockCode acc entry =
     (let (remaining, pushes) = scan_alerts code_of trig mk stockCode (fst entry) (snd entry)
      in (if remaining \<noteq> [] then AList.update (fst entry) remaining (fst acc)
          else AList.delete (fst entry) (fst acc),
          snd acc @ pushes))"

definition alert_loop ::
  "('a \<Rightarrow> string) \<Rightarrow> ('a \<Rightarrow> bool) \<Rightarrow> ('a \<Rightarrow> message) \<Rightarrow> string \<Rightarrow> 'a list jsmap
     \<Rightarrow> 'a list jsmap \<times> push list" where
  "alert_loop code_of trig mk stockCode m =
     foldl (alert_step code_of trig mk stockCode) (m, []) m"

definition history_of :: "num list jsmap \<Rightarrow> string \<Rightarrow> num list" where
  "history_of vh stockCode = (case map_of vh stockCode of None \<Rightarrow> [] | Some h \<Rightarrow> h)"

text \<open>The body of the loop over the identifiers, for a fetched object (lines 181 to 296).\<close>

definition evaluate_code :: "bot_state \<Rightarrow> string \<Rightarrow> stock_data \<Rightarrow> bot_state \<times> push list" where
  "evaluate_code st stockCode d =
     (let (pa, pushes1) = alert_loop p_stockCode (price_trigger (currentPrice d))
            (\<lambda>alert. PriceAlertMsg stockCode (direction alert) (targetPrice alert)
               (currentPrice d))
            stockCode (userPriceAlerts st);
          (ca, pushes2) = alert_loop c_stockCode (change_trigger (percentageChange d))
            (\<lambda>alert. ChangeAlertMsg stockCode (percentageChange d))
            stockCode (userChangeAlerts st);
          history = history_of (volumeHistory st) stockCode;
          (va, pushes3) = alert_loop v_stockCode (volume_trigger history (currentVolume d))
            (\<lambda>alert. VolumeAlertMsg stockCode (currentVolume d) (multiplier alert))
            stockCode (userVolumeAlerts st)
      in (\<lparr>userPriceAlerts = pa, userVolumeAlerts = va, userChangeAlerts = ca,
           volumeHistory = AList.update stockCode (append_history history (currentVolume d))
             (volumeHistory st)\<rparr>,
          pushes1 @ pushes2 @ pushes3))"

text \<open>
  One identifier of the cycle (lines 166 to 297). \<open>deliver\<close> tells whether \<open>pushMessage\<close>
  succeeds; a failed push is logged by its \<open>catch\<close> handler and nothing else.
\<close>

definition process_code ::
  "(string \<Rightarrow> fetch_result) \<Rightarrow> (push \<Rightarrow> bool) \<Rightarrow> bot_state \<Rightarrow> string
     \<Rightarrow> bot_state \<times> push list \<times> log_entry list" where
  "process_code fetch deliver st stockCode =
     (case fetch stockCode of
        Threw \<Rightarrow> (st, [], [FetchFailed stockCode])
      | Null \<Rightarrow> (st, [], [])
      | Data d \<Rightarrow>
          (let (st', pushes) = evaluate_code st stockCode d
           in (st', pushes,
               map (\<lambda>p. PushFailed (fst p) (snd p)) (filter (\<lambda>p. \<not> deliver p) pushes))))"

text \<open>\<open>Set.add\<close>: a \<open>Set\<close> keeps the first insertion of each element.\<close>

definition set_add :: "string list \<Rightarrow> string \<Rightarrow> string list" where
  "set_add s x = (if x \<in> set s then s else s @ [x])"

definition stockCodes :: "bot_state \<Rightarrow> string list" where
  "stockCodes st =
     foldl set_add
       (foldl set_add
          (foldl set_add [] (map p_stockCode (concat (map snd (userPriceAlerts st)))))
          (map v_stockCode (concat (map snd (userVolumeAlerts st)))))
       (map c_stockCode (concat (map snd (userChangeAlerts st))))"

fun run_codes ::
  "(string \<Rightarrow> fetch_result) \<Rightarrow> (push \<Rightarrow> bool) \<Rightarrow> bot_state \<Rightarrow> string list
     \<Rightarrow> bot_state \<times> push list \<times> log_entry list" where
  "run_codes fetch deliver st [] = (st, [], [])"
| "run_codes fetch deliver st (stockCode # rest) =
     (let (st1, pushes1, logs1) = process_code fetch deliver st stockCode;
          (st2, pushes2, logs2) = run_codes fetch deliver st1 rest
      in (st2, pushes1 @ pushes2, logs1 @ logs2))"

definition checkAlerts ::
  "(string \<Rightarrow> fetch_result) \<Rightarrow> (push \<Rightarrow> bool) \<Rightarrow> bot_state
     \<Rightarrow> bot_state \<times> push list \<times> log_entry list" where
  "checkAlerts fetch deliver st = run_codes fetch deliver st (stockCodes st)"

section \<open>The command handlers: handleEvent\<close>

text \<open>\<open>map.get(userId) || []\<close>: the alerts of a user, the empty array for an absent key.\<close>

definition alerts_of :: "'a list jsmap \<Rightarrow> string \<Rightarrow> 'a list" where
  "alerts_of m userId = (case map_of m userId of None \<Rightarrow> [] | Some alerts \<Rightarrow> alerts)"

text \<open>
  \<open>getUserAlertBucket\<close> stores an empty array under an absent key and returns the array
  held by the map; the caller then changes that array in place, which the model writes as
  a store of the changed array under the same key.
\<close>

definition getUserAlertBucket :: "'a list jsmap \<Rightarrow> string \<Rightarrow> 'a list jsmap \<times> 'a list" where
  "getUserAlertBucket m userId =
     (case map_of m userId of
        None \<Rightarrow> (AList.update userId [] m, [])
      | Some alerts \<Rightarrow> (m, alerts))"

text \<open>\<open>Array.findIndex\<close>, with \<open>None\<close> for -1.\<close>

fun findIndex :: "('a \<Rightarrow> bool) \<Rightarrow> 'a list \<Rightarrow> nat option" where
  "findIndex P [] = None"
| "findIndex P (x # xs) = (if P x then Some 0 else map_option Suc (findIndex P xs))"

text \<open>
  \<open>parseFloat\<close> on a text admitted by the pattern \<open>\d+(?:\.\d+)?\<close> of the commands: the
  value of the decimal digits.
\<close>

definition digit_of :: "char \<Rightarrow> nat" where
  "digit_of ch = of_char ch - 48"

definition digits_value :: "string \<Rightarrow> nat" where
  "digits_value s = foldl (\<lambda>acc ch. 10 * acc + digit_of ch) 0 s"

definition parseFloat_decimal :: "string \<Rightarrow> num" where
  "parseFloat_decimal s =
     (let ip = takeWhile (\<lambda>ch. ch \<noteq> CHR ''.'') s;
          rest = dropWhile (\<lambda>ch. ch \<noteq> CHR ''.'') s
      in of_nat (digits_value ip) +
         (case rest of [] \<Rightarrow> 0 | dot # fp \<Rightarrow> of_nat (digits_value fp) / 10 ^ length fp))"

text \<open>Lines 339 to 343 and 363 to 367: set a price alert of a user.\<close>

definition upsert_price ::
  "price_alert list jsmap \<Rightarrow> string \<Rightarrow> string \<Rightarrow> direction \<Rightarrow> num \<Rightarrow> price_alert list jsmap" where
  "upsert_price m userId stockCode dir tp =
     (let (m1, userAlerts) = getUserAlertBucket m userId
      in case findIndex (\<lambda>alert. p_stockCode alert = stockCode \<and> direction alert = dir)
                userAlerts of
           Some existingIndex \<Rightarrow>
             AList.update userId
               (userAlerts[existingIndex := (userAlerts ! existingIndex)\<lparr>targetPrice := tp\<rparr>]) m1
         | None \<Rightarrow>
             AList.update userId
               (userAlerts @ [\<lparr>p_stockCode = stockCode, direction = dir, targetPrice = tp\<rparr>]) m1)"

text \<open>Lines 382 to 386.\<close>

definition upsert_change ::
  "change_alert list jsmap \<Rightarrow> string \<Rightarrow> string \<Rightarrow> num \<Rightarrow> change_alert list jsmap" where
  "upsert_change m userId stockCode cp =
     (let (m1, alerts) = getUserAlertBucket m userId
      in case findIndex (\<lambda>alert. c_stockCode alert = stockCode) alerts of
           Some existingIndex \<Rightarrow>
             AList.update userId
               (alerts[existingIndex := (alerts ! existingIndex)\<lparr>changePercent := cp\<rparr>]) m1
         | None \<Rightarrow>
             AList.update userId
               (alerts @ [\<lparr>c_stockCode = stockCode, changePercent = cp\<rparr>]) m1)"

text \<open>Lines 428 to 432.\<close>

definition upsert_volume ::
  "volume_alert list jsmap \<Rightarrow> string \<Rightarrow> string \<Rightarrow> num \<Rightarrow> volume_alert list jsmap" where
  "upsert_volume m userId stockCode mu =
     (let (m1, alerts) = getUserAlertBucket m userId
      in case findIndex (\<lambda>alert. v_stockCode alert = stockCode) alerts of
           Some existingIndex \<Rightarrow>
             AList.update userId
               (alerts[existingIndex := (alerts ! existingIndex)\<lparr>multiplier := mu\<rparr>]) m1
         | None \<Rightarrow>
             AList.update userId
               (alerts @ [\<lparr>v_stockCode = stockCode, multiplier = mu\<rparr>]) m1)"

text \<open>
  A text message after the patterns of \<open>handleEvent\<close> have been tried in their order: the
  pattern that matched, with its captured groups.
\<close>

datatype command =
  StockQuery string
| PriceAlertCmd string direction string
| SimplePriceAlertCmd string string
| ChangeAlertCmd string string
| AlertList
| AlertClear
| VolAlertCmd string string
| VolList
| VolClear
| Help
| Unknown

datatype reply =
  InfoReply
| AckReply
| NotFoundReply
| ListReply "price_alert list" "change_alert list"
| VolListReply "volume_alert list"
| EmptyListReply
| ClearedReply
| InvalidMultiplierReply
| HelpReply
| NoReply
| Rejected

definition handleEvent ::
  "(string \<Rightarrow> fetch_result) \<Rightarrow> string \<Rightarrow> command \<Rightarrow> bot_state \<Rightarrow> bot_state \<times> reply" where
  "handleEvent fetch userId cmd st =
     (case cmd of
        StockQuery stockCode \<Rightarrow> (st, InfoReply)
      | PriceAlertCmd stockCode dir priceText \<Rightarrow>
          (st\<lparr>userPriceAlerts :=
                upsert_price (userPriceAlerts st) userId stockCode dir
                  (parseFloat_decimal priceText)\<rparr>, AckReply)
      | SimplePriceAlertCmd stockCode priceText \<Rightarrow>
          (case fetch stockCode of
             Threw \<Rightarrow> (st, Rejected)
           | Null \<Rightarrow> (st, NotFoundReply)
           | Data d \<Rightarrow>
               (let tp = parseFloat_decimal priceText;
                    dir = (if currentPrice d \<le> tp then ABOVE else BELOW)
                in (st\<lparr>userPriceAlerts :=
                         upsert_price (userPriceAlerts st) userId stockCode dir tp\<rparr>,
                    AckReply)))
      | ChangeAlertCmd stockCode percentText \<Rightarrow>
          (st\<lparr>userChangeAlerts :=
                upsert_change (userChangeAlerts st) userId stockCode
                  (parseFloat_decimal percentText)\<rparr>, AckReply)
      | AlertList \<Rightarrow>
          (let alerts = alerts_of (userPriceAlerts st) userId;
               changeAlerts = alerts_of (userChangeAlerts st) userId
           in if length alerts = 0 \<and> length changeAlerts = 0 then (st, EmptyListReply)
              else (st, ListReply alerts changeAlerts))
      | AlertClear \<Rightarrow>
          (st\<lparr>userPriceAlerts := AList.delete userId (userPriceAlerts st),
               userChangeAlerts := AList.delete userId (userChangeAlerts st)\<rparr>, ClearedReply)
      | VolAlertCmd stockCode multiplierText \<Rightarrow>
          (let mu = parseFloat_decimal multiplierText
           in if mu \<le> 1 then (st, InvalidMultiplierReply)
              else (st\<lparr>userVolumeAlerts :=
                          upsert_volume (userVolumeAlerts st) userId stockCode mu\<rparr>, AckReply))
      | VolList \<Rightarrow>
          (let alerts = alerts_of (userVolumeAlerts st) userId
           in if length alerts = 0 then (st, EmptyListReply) else (st, VolListReply alerts))
      | VolClear \<Rightarrow>
          (st\<lparr>userVolumeAlerts := AList.delete userId (userVolumeAlerts st)\<rparr>, ClearedReply)
      | Help \<Rightarrow> (st, HelpReply)
      | Unknown \<Rightarrow> (st, NoReply))"

section \<open>Runs of the program\<close>

text \<open>
  The program is single-threaded: between two suspension points it runs one command
  handler, or the body of the cycle's loop for one identifier. A run is a sequence of such
  steps from the empty registry.
\<close>

datatype step =
  Command "string \<Rightarrow> fetch_result" string command
| Evaluate "string \<Rightarrow> fetch_result" "push \<Rightarrow> bool" string

fun do_step :: "bot_state \<Rightarrow> step \<Rightarrow> bot_state" where
  "do_step st (Command fetch userId cmd) = fst (handleEvent fetch userId cmd st)"
| "do_step st (Evaluate fetch deliver stockCode) = fst (process_code fetch deliver st stockCode)"

definition run_steps :: "step list \<Rightarrow> bot_state" where
  "run_steps steps = foldl do_step initial_state steps"

section \<open>The scheduler\<close>






section \<open>Invariants of the registry and notions of the properties\<close>

text \<open>
  What the outer loop computes on a map with distinct keys: every array filtered, users
  with nothing left removed (\<open>keep_entries\<close>), and the pushes of the alerts that
  fired, user by user (\<open>fired_pushes\<close>).
\<close>

definition keep_entries :: "('a \<Rightarrow> bool) \<Rightarrow> 'a list jsmap \<Rightarrow> 'a list jsmap" where
  "keep_entries keep m = filter (\<lambda>e. snd e \<noteq> []) (map (\<lambda>e. (fst e, filter keep (snd e))) m)"

definition fired_pushes :: "('a \<Rightarrow> bool) \<Rightarrow> ('a \<Rightarrow> message) \<Rightarrow> 'a list jsmap \<Rightarrow> push list" where
  "fired_pushes fire mk m =
     concat (map (\<lambda>e. map (\<lambda>a. (fst e, mk a)) (filter fire (snd e))) m)"

text \<open>A \<open>Map\<close> holds each user id once.\<close>

definition keys_distinct :: "bot_state \<Rightarrow> bool" where
  "keys_distinct st \<longleftrightarrow>
     distinct (map fst (userPriceAlerts st)) \<and> distinct (map fst (userVolumeAlerts st)) \<and>
     distinct (map fst (userChangeAlerts st))"

text \<open>A property of every value stored in a map.\<close>

definition all_buckets :: "('v \<Rightarrow> bool) \<Rightarrow> 'v jsmap \<Rightarrow> bool" where
  "all_buckets Q m \<longleftrightarrow> (\<forall>e \<in> set m. Q (snd e))"


text \<open>No user id is mapped to an empty array.\<close>

definition pruned_state :: "bot_state \<Rightarrow> bool" where
  "pruned_state st \<longleftrightarrow>
     all_buckets (\<lambda>b. b \<noteq> []) (userPriceAlerts st) \<and>
     all_buckets (\<lambda>b. b \<noteq> []) (userVolumeAlerts st) \<and>
     all_buckets (\<lambda>b. b \<noteq> []) (userChangeAlerts st)"


definition history_bounded :: "bot_state \<Rightarrow> bool" where
  "history_bounded st \<longleftrightarrow>
     all_buckets (\<lambda>h. length h \<le> VOLUME_HISTORY_LIMIT) (volumeHistory st)"

text \<open>
  An alert fires in a cycle with quote source \<open>fetch\<close>: an object is fetched for its
  identifier and the trigger of the alert holds on it. For a volume alert the trigger
  reads the window \<open>vh\<close> holds for the identifier.
\<close>

definition price_fires :: "(string \<Rightarrow> fetch_result) \<Rightarrow> price_alert \<Rightarrow> bool" where
  "price_fires fetch a =
     (case fetch (p_stockCode a) of
        Data d \<Rightarrow> price_trigger (currentPrice d) a
      | _ \<Rightarrow> False)"

definition change_fires :: "(string \<Rightarrow> fetch_result) \<Rightarrow> change_alert \<Rightarrow> bool" where
  "change_fires fetch a =
     (case fetch (c_stockCode a) of
        Data d \<Rightarrow> change_trigger (percentageChange d) a
      | _ \<Rightarrow> False)"

definition volume_fires ::
  "(string \<Rightarrow> fetch_result) \<Rightarrow> num list jsmap \<Rightarrow> volume_alert \<Rightarrow> bool" where
  "volume_fires fetch vh a =
     (case fetch (v_stockCode a) of
        Data d \<Rightarrow> volume_trigger (history_of vh (v_stockCode a)) (currentVolume d) a
      | _ \<Rightarrow> False)"

text \<open>
  The identifier a message is about, and the messages that the evaluation of identifier
  \<open>c\<close> in state \<open>st\<close> pushes to user \<open>u\<close>.
\<close>

fun msg_code :: "message \<Rightarrow> string" where
  "msg_code (PriceAlertMsg c dir tp cp) = c"
| "msg_code (ChangeAlertMsg c pct) = c"
| "msg_code (VolumeAlertMsg c cv mu) = c"

definition pushes_for ::
  "(string \<Rightarrow> fetch_result) \<Rightarrow> bot_state \<Rightarrow> string \<Rightarrow> string \<Rightarrow> message list" where
  "pushes_for fetch st u c =
     (case fetch c of
        Data d \<Rightarrow>
          map (\<lambda>a. PriceAlertMsg c (direction a) (targetPrice a) (currentPrice d))
            (filter (\<lambda>a. p_stockCode a = c \<and> price_trigger (currentPrice d) a)
               (alerts_of (userPriceAlerts st) u)) @
          map (\<lambda>a. ChangeAlertMsg c (percentageChange d))
            (filter (\<lambda>a. c_stockCode a = c \<and> change_trigger (percentageChange d) a)
               (alerts_of (userChangeAlerts st) u)) @
          map (\<lambda>a. VolumeAlertMsg c (currentVolume d) (multiplier a))
            (filter (\<lambda>a. v_stockCode a = c \<and>
                 volume_trigger (history_of (volumeHistory st) c) (currentVolume d) a)
               (alerts_of (userVolumeAlerts st) u))
      | _ \<Rightarrow> [])"

text \<open>
  The volume samples of an identifier that a run appends, in arrival order: one for each
  step that evaluates the identifier on a fetched object.
\<close>

definition step_samples :: "string \<Rightarrow> step \<Rightarrow> num list" where
  "step_samples c s =
     (case s of
        Command fetch userId cmd \<Rightarrow> []
      | Evaluate fetch deliver stockCode \<Rightarrow>
          (if stockCode = c
           then (case fetch c of Data d \<Rightarrow> [currentVolume d] | _ \<Rightarrow> [])
           else []))"

definition samples_of :: "string \<Rightarrow> step list \<Rightarrow> num list" where
  "samples_of c steps = concat (map (step_samples c) steps)"

section \<open>Concrete inputs\<close>

text \<open>A quote source that answers every identifier with the same object.\<close>

definition constant_feed :: "num \<Rightarrow> num \<Rightarrow> num \<Rightarrow> string \<Rightarrow> fetch_result" where
  "constant_feed zv yv vv stockCode =
     Data \<lparr>parsed_z = Some zv, parsed_y = Some yv, parsed_v = Some vv\<rparr>"

text \<open>Delivery that always fails.\<close>

definition no_delivery :: "push \<Rightarrow> bool" where
  "no_delivery p = False"

text \<open>
  A run that leaves user U1 with one alert of each kind and three volume samples of 100
  for identifier 2317.
\<close>

definition example_run :: "step list" where
  "example_run =
     [Evaluate (constant_feed 600 600 100) no_delivery ''2317'',
      Evaluate (constant_feed 600 600 100) no_delivery ''2317'',
      Evaluate (constant_feed 600 600 100) no_delivery ''2317'',
      Command (constant_feed 600 600 100) ''U1'' (PriceAlertCmd ''2330'' ABOVE ''640''),
      Command (constant_feed 600 600 100) ''U1'' (ChangeAlertCmd ''2330'' ''5''),
      Command (constant_feed 600 600 100) ''U1'' (VolAlertCmd ''2317'' ''2'')]"




text \<open>A quote source whose request for identifier 2330 throws.\<close>

definition failing_feed :: "string \<Rightarrow> fetch_result" where
  "failing_feed stockCode =
     (if stockCode = ''2330'' then Threw else constant_feed 650 600 250 stockCode)"



text \<open>Twenty-one evaluations of identifier 2317, with the volumes 1 to 21.\<close>

definition long_run :: "step list" where
  "long_run =
     map (\<lambda>vv. Evaluate (constant_feed 600 600 vv) no_delivery ''2317'')
       [1, 2, 3, 4, 5, 6, 7, 8, 9, 10, 11, 12, 13, 14, 15, 16, 17, 18, 19, 20, 21]"

section \<open>Properties\<close>

subsection \<open>The loops of the cycle\<close>


lemma scan_alerts_eq:
  "scan_alerts code_of trig mk c u as =
     (filter (\<lambda>a. code_of a \<noteq> c \<or> \<not> trig a) as,
      map (\<lambda>a. (u, mk a)) (filter (\<lambda>a. code_of a = c \<and> trig a) as))"
  by (induction as) (auto simp: Let_def)

lemma update_append_notin:
  "k \<notin> fst ` set xs \<Longrightarrow> AList.update k v (xs @ ys) = xs @ AList.update k v ys"
  by (induction xs) auto

lemma delete_append_notin:
  "k \<notin> fst ` set xs \<Longrightarrow> AList.delete k (xs @ ys) = xs @ AList.delete k ys"
  by (induction xs) auto

lemma foldl_alert_step:
  "distinct (map fst es) \<Longrightarrow> fst ` set pre \<inter> fst ` set es = {} \<Longrightarrow>
   foldl (alert_step code_of trig mk c) (pre @ es, out) es =
     (pre @ keep_entries (\<lambda>a. code_of a \<noteq> c \<or> \<not> trig a) es,
      out @ fired_pushes (\<lambda>a. code_of a = c \<and> trig a) mk es)"
proof (induction es arbitrary: pre out)
  case Nil
  then show ?case by (simp add: keep_entries_def fired_pushes_def)
next
  case (Cons e es)
  obtain u b where e: "e = (u, b)" by (cases e)
  let ?keep = "\<lambda>a. code_of a \<noteq> c \<or> \<not> trig a"
  let ?fire = "\<lambda>a. code_of a = c \<and> trig a"
  from Cons.prems have u_pre: "u \<notin> fst ` set pre" and u_es: "u \<notin> fst ` set es"
    and d: "distinct (map fst es)" by (auto simp: e)
  show ?case
  proof (cases "filter ?keep b = []")
    case True
    have "alert_step code_of trig mk c (pre @ e # es, out) e =
        (pre @ es, out @ map (\<lambda>a. (u, mk a)) (filter ?fire b))"
      using True u_pre u_es
      by (simp add: alert_step_def scan_alerts_eq e delete_append_notin)
    moreover have "fst ` set pre \<inter> fst ` set es = {}" using Cons.prems by auto
    ultimately show ?thesis
      using Cons.IH[OF d, of pre] True by (simp add: e keep_entries_def fired_pushes_def)
  next
    case False
    have "alert_step code_of trig mk c (pre @ e # es, out) e =
        ((pre @ [(u, filter ?keep b)]) @ es, out @ map (\<lambda>a. (u, mk a)) (filter ?fire b))"
      using False u_pre
      by (simp add: alert_step_def scan_alerts_eq e update_append_notin)
    moreover have "fst ` set (pre @ [(u, filter ?keep b)]) \<inter> fst ` set es = {}"
      using Cons.prems u_es by (auto simp: e)
    ultimately show ?thesis
      using Cons.IH[OF d, of "pre @ [(u, filter ?keep b)]"] False
      by (simp add: e keep_entries_def fired_pushes_def)
  qed
qed

lemma alert_loop_eq:
  assumes "distinct (map fst m)"
  shows "alert_loop code_of trig mk c m =
     (keep_entries (\<lambda>a. code_of a \<noteq> c \<or> \<not> trig a) m,
      fired_pushes (\<lambda>a. code_of a = c \<and> trig a) mk m)"
  using foldl_alert_step[OF assms, of "[]"] by (simp add: alert_loop_def)

lemma keep_entries_keys_subset: "fst ` set (keep_entries k m) \<subseteq> fst ` set m"
  by (force simp: keep_entries_def)

lemma distinct_keep_entries:
  "distinct (map fst m) \<Longrightarrow> distinct (map fst (keep_entries k m))"
proof (induction m)
  case Nil
  then show ?case by (simp add: keep_entries_def)
next
  case (Cons e m)
  have "fst e \<notin> fst ` set (keep_entries k m)"
    using Cons.prems keep_entries_keys_subset[of k m] by auto
  with Cons show ?case by (auto simp: keep_entries_def)
qed

lemma map_of_keep_entries:
  "distinct (map fst m) \<Longrightarrow>
   map_of (keep_entries k m) u =
     (case map_of m u of None \<Rightarrow> None
      | Some b \<Rightarrow> if filter k b = [] then None else Some (filter k b))"
proof (induction m)
  case Nil
  then show ?case by (simp add: keep_entries_def)
next
  case (Cons e m)
  obtain u' b where e: "e = (u', b)" by (cases e)
  have notin: "u' \<notin> fst ` set (keep_entries k m)"
    using Cons.prems keep_entries_keys_subset[of k m] by (auto simp: e)
  have IH: "map_of (keep_entries k m) u =
     (case map_of m u of None \<Rightarrow> None
      | Some b \<Rightarrow> if filter k b = [] then None else Some (filter k b))"
    using Cons by simp
  have ke: "keep_entries k ((u', b) # m) =
      (if filter k b = [] then keep_entries k m else (u', filter k b) # keep_entries k m)"
    by (simp add: keep_entries_def)
  show ?case
  proof (cases "u = u'")
    case True
    have "map_of (keep_entries k m) u' = None"
      using notin by (simp add: map_of_eq_None_iff)
    then show ?thesis using True by (simp add: ke e)
  next
    case False
    then show ?thesis using IH by (simp add: ke e)
  qed
qed

lemma alerts_of_keep_entries:
  "distinct (map fst m) \<Longrightarrow> alerts_of (keep_entries k m) u = filter k (alerts_of m u)"
  by (simp add: alerts_of_def map_of_keep_entries split: option.splits)

lemma keep_entries_nonempty: "e \<in> set (keep_entries k m) \<Longrightarrow> snd e \<noteq> []"
  by (auto simp: keep_entries_def)

lemma keep_entries_entry:
  "e \<in> set (keep_entries k m) \<Longrightarrow> \<exists>b. (fst e, b) \<in> set m \<and> snd e = filter k b"
  by (auto simp: keep_entries_def)

lemma count_fired_pushes:
  "distinct (map fst m) \<Longrightarrow>
   count_list (fired_pushes fire mk m) (u, x) =
     count_list (map mk (filter fire (alerts_of m u))) x"
proof (induction m)
  case Nil
  then show ?case by (simp add: fired_pushes_def alerts_of_def)
next
  case (Cons e m)
  obtain u' b where e: "e = (u', b)" by (cases e)
  have fp: "fired_pushes fire mk ((u', b) # m) =
      map (\<lambda>a. (u', mk a)) (filter fire b) @ fired_pushes fire mk m"
    by (simp add: fired_pushes_def)
  have IH: "count_list (fired_pushes fire mk m) (u, x) =
     count_list (map mk (filter fire (alerts_of m u))) x"
    using Cons by simp
  have cnt: "count_list (map (\<lambda>a. (u', mk a)) xs) (v, x) =
      (if v = u' then count_list (map mk xs) x else 0)" for xs v
    by (induction xs) auto
  show ?case
  proof (cases "u = u'")
    case True
    then have "map_of m u = None" using Cons.prems by (simp add: e map_of_eq_None_iff)
    then have "count_list (fired_pushes fire mk m) (u, x) = 0"
      using IH by (simp add: alerts_of_def)
    then show ?thesis using True by (simp add: fp cnt alerts_of_def e)
  next
    case False
    then show ?thesis using IH by (simp add: fp cnt alerts_of_def e)
  qed
qed

subsection \<open>One identifier of the cycle\<close>

lemma evaluate_code_eq:
  assumes "keys_distinct st"
  shows "evaluate_code st c d =
     (\<lparr>userPriceAlerts =
          keep_entries (\<lambda>a. p_stockCode a \<noteq> c \<or> \<not> price_trigger (currentPrice d) a)
            (userPriceAlerts st),
        userVolumeAlerts =
          keep_entries (\<lambda>a. v_stockCode a \<noteq> c \<or>
              \<not> volume_trigger (history_of (volumeHistory st) c) (currentVolume d) a)
            (userVolumeAlerts st),
        userChangeAlerts =
          keep_entries (\<lambda>a. c_stockCode a \<noteq> c \<or> \<not> change_trigger (percentageChange d) a)
            (userChangeAlerts st),
        volumeHistory =
          AList.update c (append_history (history_of (volumeHistory st) c) (currentVolume d))
            (volumeHistory st)\<rparr>,
      fired_pushes (\<lambda>a. p_stockCode a = c \<and> price_trigger (currentPrice d) a)
        (\<lambda>a. PriceAlertMsg c (direction a) (targetPrice a) (currentPrice d))
        (userPriceAlerts st) @
      fired_pushes (\<lambda>a. c_stockCode a = c \<and> change_trigger (percentageChange d) a)
        (\<lambda>a. ChangeAlertMsg c (percentageChange d)) (userChangeAlerts st) @
      fired_pushes (\<lambda>a. v_stockCode a = c \<and>
          volume_trigger (history_of (volumeHistory st) c) (currentVolume d) a)
        (\<lambda>a. VolumeAlertMsg c (currentVolume d) (multiplier a)) (userVolumeAlerts st))"
  using assms by (simp add: evaluate_code_def alert_loop_eq keys_distinct_def Let_def)

lemma process_code_failed:
  "fetch c = Threw \<or> fetch c = Null \<Longrightarrow>
   fst (process_code fetch deliver st c) = st \<and> fst (snd (process_code fetch deliver st c)) = []"
  by (auto simp: process_code_def)

lemma process_code_Data:
  "fetch c = Data d \<Longrightarrow>
   fst (process_code fetch deliver st c) = fst (evaluate_code st c d) \<and>
   fst (snd (process_code fetch deliver st c)) = snd (evaluate_code st c d)"
  by (simp add: process_code_def split: prod.splits)

lemma process_code_price:
  assumes "keys_distinct st"
  shows "alerts_of (userPriceAlerts (fst (process_code fetch deliver st c))) u =
     filter (\<lambda>a. \<not> (p_stockCode a = c \<and> price_fires fetch a)) (alerts_of (userPriceAlerts st) u)"
proof (cases "fetch c")
  case (Data d)
  have "distinct (map fst (userPriceAlerts st))" using assms by (simp add: keys_distinct_def)
  then show ?thesis
    using Data assms
    by (auto simp: process_code_Data evaluate_code_eq alerts_of_keep_entries price_fires_def
        intro!: filter_cong)
qed (auto simp: process_code_failed price_fires_def intro!: filter_id_conv[THEN iffD2, symmetric])

lemma process_code_change:
  assumes "keys_distinct st"
  shows "alerts_of (userChangeAlerts (fst (process_code fetch deliver st c))) u =
     filter (\<lambda>a. \<not> (c_stockCode a = c \<and> change_fires fetch a)) (alerts_of (userChangeAlerts st) u)"
proof (cases "fetch c")
  case (Data d)
  have "distinct (map fst (userChangeAlerts st))" using assms by (simp add: keys_distinct_def)
  then show ?thesis
    using Data assms
    by (auto simp: process_code_Data evaluate_code_eq alerts_of_keep_entries change_fires_def
        intro!: filter_cong)
qed (auto simp: process_code_failed change_fires_def intro!: filter_id_conv[THEN iffD2, symmetric])

lemma process_code_volume:
  assumes "keys_distinct st"
  shows "alerts_of (userVolumeAlerts (fst (process_code fetch deliver st c))) u =
     filter (\<lambda>a. \<not> (v_stockCode a = c \<and> volume_fires fetch (volumeHistory st) a))
       (alerts_of (userVolumeAlerts st) u)"
proof (cases "fetch c")
  case (Data d)
  have "distinct (map fst (userVolumeAlerts st))" using assms by (simp add: keys_distinct_def)
  then show ?thesis
    using Data assms
    by (auto simp: process_code_Data evaluate_code_eq alerts_of_keep_entries volume_fires_def
        intro!: filter_cong)
qed (auto simp: process_code_failed volume_fires_def intro!: filter_id_conv[THEN iffD2, symmetric])

lemma history_of_update:
  "history_of (AList.update c h vh) c' = (if c' = c then h else history_of vh c')"
  by (simp add: history_of_def update_conv')

lemma evaluate_code_history:
  "volumeHistory (fst (evaluate_code st c d)) =
     AList.update c (append_history (history_of (volumeHistory st) c) (currentVolume d))
       (volumeHistory st)"
  by (simp add: evaluate_code_def Let_def split: prod.splits)

lemma process_code_history:
  "history_of (volumeHistory (fst (process_code fetch deliver st c))) c' =
     (if c' = c then
        (case fetch c of
           Data d \<Rightarrow> append_history (history_of (volumeHistory st) c) (currentVolume d)
         | _ \<Rightarrow> history_of (volumeHistory st) c)
      else history_of (volumeHistory st) c')"
  by (cases "fetch c")
    (simp_all add: process_code_failed process_code_Data evaluate_code_history history_of_update)

lemma process_code_keys_distinct:
  assumes "keys_distinct st"
  shows "keys_distinct (fst (process_code fetch deliver st c))"
proof (cases "fetch c")
  case (Data d)
  then show ?thesis using assms
    by (simp add: process_code_Data evaluate_code_eq)
      (simp add: keys_distinct_def distinct_keep_entries)
qed (simp_all add: process_code_failed assms)

subsection \<open>The identifiers of a cycle\<close>

lemma foldl_set_add_set: "set (foldl set_add s xs) = set s \<union> set xs"
  by (induction xs arbitrary: s) (auto simp: set_add_def)

lemma foldl_set_add_distinct: "distinct s \<Longrightarrow> distinct (foldl set_add s xs)"
  by (induction xs arbitrary: s) (auto simp: set_add_def)

lemma distinct_stockCodes: "distinct (stockCodes st)"
  by (simp add: stockCodes_def foldl_set_add_distinct)

lemma set_stockCodes:
  "set (stockCodes st) =
     p_stockCode ` (\<Union>e \<in> set (userPriceAlerts st). set (snd e)) \<union>
     v_stockCode ` (\<Union>e \<in> set (userVolumeAlerts st). set (snd e)) \<union>
     c_stockCode ` (\<Union>e \<in> set (userChangeAlerts st). set (snd e))"
  by (simp add: stockCodes_def foldl_set_add_set image_UN)

lemma alerts_of_in_map:
  assumes "a \<in> set (alerts_of m u)"
  shows "\<exists>e \<in> set m. a \<in> set (snd e)"
proof (cases "map_of m u")
  case None
  then show ?thesis using assms by (simp add: alerts_of_def)
next
  case (Some b)
  then have "(u, b) \<in> set m" by (rule map_of_SomeD)
  moreover have "a \<in> set b" using assms Some by (simp add: alerts_of_def)
  ultimately show ?thesis by force
qed

lemma price_code_in_stockCodes:
  "a \<in> set (alerts_of (userPriceAlerts st) u) \<Longrightarrow> p_stockCode a \<in> set (stockCodes st)"
  using alerts_of_in_map[of a "userPriceAlerts st" u] by (auto simp: set_stockCodes)

lemma volume_code_in_stockCodes:
  "a \<in> set (alerts_of (userVolumeAlerts st) u) \<Longrightarrow> v_stockCode a \<in> set (stockCodes st)"
  using alerts_of_in_map[of a "userVolumeAlerts st" u] by (auto simp: set_stockCodes)

lemma change_code_in_stockCodes:
  "a \<in> set (alerts_of (userChangeAlerts st) u) \<Longrightarrow> c_stockCode a \<in> set (stockCodes st)"
  using alerts_of_in_map[of a "userChangeAlerts st" u] by (auto simp: set_stockCodes)

subsection \<open>A whole cycle\<close>

lemma run_codes_Cons:
  "fst (run_codes fetch deliver st (c # cs)) =
     fst (run_codes fetch deliver (fst (process_code fetch deliver st c)) cs)"
  "fst (snd (run_codes fetch deliver st (c # cs))) =
     fst (snd (process_code fetch deliver st c)) @
     fst (snd (run_codes fetch deliver (fst (process_code fetch deliver st c)) cs))"
  by (simp_all split: prod.splits)

lemma run_codes_keys_distinct:
  "keys_distinct st \<Longrightarrow> keys_distinct (fst (run_codes fetch deliver st cs))"
proof (induction cs arbitrary: st)
  case Nil
  then show ?case by simp
next
  case (Cons c cs)
  then show ?case by (simp only: run_codes_Cons process_code_keys_distinct)
qed

lemma run_codes_price:
  "keys_distinct st \<Longrightarrow>
   alerts_of (userPriceAlerts (fst (run_codes fetch deliver st cs))) u =
     filter (\<lambda>a. \<not> (p_stockCode a \<in> set cs \<and> price_fires fetch a))
       (alerts_of (userPriceAlerts st) u)"
proof (induction cs arbitrary: st)
  case Nil
  then show ?case by simp
next
  case (Cons c cs)
  have kd: "keys_distinct (fst (process_code fetch deliver st c))"
    using Cons.prems by (rule process_code_keys_distinct)
  show ?case
    unfolding run_codes_Cons Cons.IH[OF kd] process_code_price[OF Cons.prems]
    by (auto simp: intro!: filter_cong)
qed

lemma run_codes_change:
  "keys_distinct st \<Longrightarrow>
   alerts_of (userChangeAlerts (fst (run_codes fetch deliver st cs))) u =
     filter (\<lambda>a. \<not> (c_stockCode a \<in> set cs \<and> change_fires fetch a))
       (alerts_of (userChangeAlerts st) u)"
proof (induction cs arbitrary: st)
  case Nil
  then show ?case by simp
next
  case (Cons c cs)
  have kd: "keys_distinct (fst (process_code fetch deliver st c))"
    using Cons.prems by (rule process_code_keys_distinct)
  show ?case
    unfolding run_codes_Cons Cons.IH[OF kd] process_code_change[OF Cons.prems]
    by (auto simp: intro!: filter_cong)
qed

lemma volume_fires_cong:
  "history_of vh (v_stockCode a) = history_of vh' (v_stockCode a) \<Longrightarrow>
   volume_fires fetch vh a = volume_fires fetch vh' a"
  by (cases "fetch (v_stockCode a)") (simp_all add: volume_fires_def)

lemma run_codes_volume:
  "keys_distinct st \<Longrightarrow> distinct cs \<Longrightarrow>
   alerts_of (userVolumeAlerts (fst (run_codes fetch deliver st cs))) u =
     filter (\<lambda>a. \<not> (v_stockCode a \<in> set cs \<and> volume_fires fetch (volumeHistory st) a))
       (alerts_of (userVolumeAlerts st) u)"
proof (induction cs arbitrary: st)
  case Nil
  then show ?case by simp
next
  case (Cons c cs)
  let ?st1 = "fst (process_code fetch deliver st c)"
  have kd: "keys_distinct ?st1"
    using Cons.prems(1) by (rule process_code_keys_distinct)
  have d: "distinct cs" and c: "c \<notin> set cs" using Cons.prems(2) by auto
  have same: "volume_fires fetch (volumeHistory ?st1) a = volume_fires fetch (volumeHistory st) a"
    if "v_stockCode a \<in> set cs" for a
    using that c by (intro volume_fires_cong) (auto simp: process_code_history)
  show ?case
    unfolding run_codes_Cons Cons.IH[OF kd d] process_code_volume[OF Cons.prems(1)]
    using same by (auto simp: intro!: filter_cong)
qed

lemma run_codes_history:
  "distinct cs \<Longrightarrow>
   history_of (volumeHistory (fst (run_codes fetch deliver st cs))) c =
     (if c \<in> set cs then
        (case fetch c of
           Data d \<Rightarrow> append_history (history_of (volumeHistory st) c) (currentVolume d)
         | _ \<Rightarrow> history_of (volumeHistory st) c)
      else history_of (volumeHistory st) c)"
proof (induction cs arbitrary: st)
  case Nil
  then show ?case by simp
next
  case (Cons c' cs)
  have d: "distinct cs" and c: "c' \<notin> set cs" using Cons.prems by auto
  show ?case
    unfolding run_codes_Cons Cons.IH[OF d] using c
    by (cases "fetch c") (auto simp: process_code_history)
qed

subsection \<open>Counting the pushes of a cycle\<close>

lemma count_list_map_other:
  "(\<And>a. f (mk a) \<noteq> f x) \<Longrightarrow> count_list (map mk xs) x = 0"
  by (induction xs) auto

lemma process_code_count:
  assumes "keys_distinct st"
  shows "count_list (fst (snd (process_code fetch deliver st c))) (u, x) =
     (if msg_code x = c then count_list (pushes_for fetch st u c) x else 0)"
proof (cases "fetch c")
  case (Data d)
  have kd: "distinct (map fst (userPriceAlerts st))" "distinct (map fst (userVolumeAlerts st))"
    "distinct (map fst (userChangeAlerts st))"
    using assms by (simp_all add: keys_distinct_def)
  have eq: "count_list (fst (snd (process_code fetch deliver st c))) (u, x) =
      count_list (pushes_for fetch st u c) x"
    using Data assms kd
    by (simp add: process_code_Data evaluate_code_eq count_fired_pushes pushes_for_def)
  show ?thesis
  proof (cases "msg_code x = c")
    case True
    then show ?thesis using eq by simp
  next
    case False
    then have "count_list (pushes_for fetch st u c) x = 0"
      using Data by (simp add: pushes_for_def count_list_map_other[where f = msg_code])
    then show ?thesis using eq False by simp
  qed
qed (simp_all add: process_code_failed pushes_for_def)

lemma filter_fire_keep:
  "(\<And>a. fire a \<Longrightarrow> keep a) \<Longrightarrow> filter fire (filter keep xs) = filter fire xs"
  by (induction xs) auto

lemma pushes_for_frame:
  assumes "keys_distinct st" and "c \<noteq> c0"
  shows "pushes_for fetch (fst (process_code fetch deliver st c0)) u c = pushes_for fetch st u c"
proof -
  have h: "history_of (volumeHistory (fst (process_code fetch deliver st c0))) c =
      history_of (volumeHistory st) c"
    using assms(2) by (simp add: process_code_history)
  have p: "filter (\<lambda>a. p_stockCode a = c \<and> P a)
        (filter (\<lambda>a. \<not> (p_stockCode a = c0 \<and> Q a)) xs) =
      filter (\<lambda>a. p_stockCode a = c \<and> P a) xs" for P Q xs
    using assms(2) by (intro filter_fire_keep) auto
  have q: "filter (\<lambda>a. c_stockCode a = c \<and> P a)
        (filter (\<lambda>a. \<not> (c_stockCode a = c0 \<and> Q a)) xs) =
      filter (\<lambda>a. c_stockCode a = c \<and> P a) xs" for P Q xs
    using assms(2) by (intro filter_fire_keep) auto
  have r: "filter (\<lambda>a. v_stockCode a = c \<and> P a)
        (filter (\<lambda>a. \<not> (v_stockCode a = c0 \<and> Q a)) xs) =
      filter (\<lambda>a. v_stockCode a = c \<and> P a) xs" for P Q xs
    using assms(2) by (intro filter_fire_keep) auto
  show ?thesis
    unfolding pushes_for_def h process_code_price[OF assms(1)] process_code_change[OF assms(1)]
      process_code_volume[OF assms(1)] p q r
    by (rule refl)
qed

lemma run_codes_count:
  "keys_distinct st \<Longrightarrow> distinct cs \<Longrightarrow>
   count_list (fst (snd (run_codes fetch deliver st cs))) (u, x) =
     (if msg_code x \<in> set cs then count_list (pushes_for fetch st u (msg_code x)) x else 0)"
proof (induction cs arbitrary: st)
  case Nil
  then show ?case by simp
next
  case (Cons c cs)
  let ?st1 = "fst (process_code fetch deliver st c)"
  have kd: "keys_distinct ?st1"
    using Cons.prems(1) by (rule process_code_keys_distinct)
  have d: "distinct cs" and c: "c \<notin> set cs" using Cons.prems(2) by auto
  show ?case
  proof (cases "msg_code x = c")
    case True
    then show ?thesis
      using c by (simp add: run_codes_Cons Cons.IH[OF kd d] process_code_count[OF Cons.prems(1)]
          del: run_codes.simps)
  next
    case False
    then show ?thesis
      using pushes_for_frame[OF Cons.prems(1) False, of fetch deliver u]
      by (simp add: run_codes_Cons Cons.IH[OF kd d] process_code_count[OF Cons.prems(1)]
          del: run_codes.simps)
  qed
qed

lemma checkAlerts_price:
  "keys_distinct st \<Longrightarrow>
   alerts_of (userPriceAlerts (fst (checkAlerts fetch deliver st))) u =
     filter (\<lambda>a. \<not> price_fires fetch a) (alerts_of (userPriceAlerts st) u)"
  by (auto simp: checkAlerts_def run_codes_price price_code_in_stockCodes intro!: filter_cong)

lemma checkAlerts_change:
  "keys_distinct st \<Longrightarrow>
   alerts_of (userChangeAlerts (fst (checkAlerts fetch deliver st))) u =
     filter (\<lambda>a. \<not> change_fires fetch a) (alerts_of (userChangeAlerts st) u)"
  by (auto simp: checkAlerts_def run_codes_change change_code_in_stockCodes intro!: filter_cong)

lemma checkAlerts_volume:
  "keys_distinct st \<Longrightarrow>
   alerts_of (userVolumeAlerts (fst (checkAlerts fetch deliver st))) u =
     filter (\<lambda>a. \<not> volume_fires fetch (volumeHistory st) a) (alerts_of (userVolumeAlerts st) u)"
  by (auto simp: checkAlerts_def run_codes_volume distinct_stockCodes volume_code_in_stockCodes
      intro!: filter_cong)

lemma checkAlerts_count:
  "keys_distinct st \<Longrightarrow>
   count_list (fst (snd (checkAlerts fetch deliver st))) (u, x) =
     (if msg_code x \<in> set (stockCodes st)
      then count_list (pushes_for fetch st u (msg_code x)) x else 0)"
  by (simp add: checkAlerts_def run_codes_count distinct_stockCodes)

lemma checkAlerts_history:
  "history_of (volumeHistory (fst (checkAlerts fetch deliver st))) c =
     (if c \<in> set (stockCodes st) then
        (case fetch c of
           Data d \<Rightarrow> append_history (history_of (volumeHistory st) c) (currentVolume d)
         | _ \<Rightarrow> history_of (volumeHistory st) c)
      else history_of (volumeHistory st) c)"
  by (simp add: checkAlerts_def run_codes_history distinct_stockCodes)

subsection \<open>The command handlers\<close>

lemma findIndex_Some: "findIndex P xs = Some i \<Longrightarrow> i < length xs \<and> P (xs ! i)"
  by (induction xs arbitrary: i) (auto split: if_splits)


lemma findIndex_first: "findIndex P xs = Some i \<Longrightarrow> j < i \<Longrightarrow> \<not> P (xs ! j)"
proof (induction xs arbitrary: i j)
  case Nil
  then show ?case by simp
next
  case (Cons x xs)
  then show ?case by (cases j) (auto split: if_splits)
qed

lemma getUserAlertBucket_eq:
  "getUserAlertBucket m u =
     (if map_of m u = None then AList.update u [] m else m, alerts_of m u)"
  by (simp add: getUserAlertBucket_def alerts_of_def split: option.splits)

lemma update_after_bucket:
  "AList.update u b (fst (getUserAlertBucket m u)) = AList.update u b m"
  by (simp add: getUserAlertBucket_eq)

lemma upsert_price_eq:
  "upsert_price m u c dir tp =
     AList.update u
       (case findIndex (\<lambda>alert. p_stockCode alert = c \<and> direction alert = dir) (alerts_of m u) of
          Some i \<Rightarrow> (alerts_of m u)[i := (alerts_of m u ! i)\<lparr>targetPrice := tp\<rparr>]
        | None \<Rightarrow> alerts_of m u @ [\<lparr>p_stockCode = c, direction = dir, targetPrice = tp\<rparr>]) m"
  by (simp add: upsert_price_def getUserAlertBucket_eq split: option.splits)

lemma upsert_change_eq:
  "upsert_change m u c cp =
     AList.update u
       (case findIndex (\<lambda>alert. c_stockCode alert = c) (alerts_of m u) of
          Some i \<Rightarrow> (alerts_of m u)[i := (alerts_of m u ! i)\<lparr>changePercent := cp\<rparr>]
        | None \<Rightarrow> alerts_of m u @ [\<lparr>c_stockCode = c, changePercent = cp\<rparr>]) m"
  by (simp add: upsert_change_def getUserAlertBucket_eq split: option.splits)

lemma upsert_volume_eq:
  "upsert_volume m u c mu =
     AList.update u
       (case findIndex (\<lambda>alert. v_stockCode alert = c) (alerts_of m u) of
          Some i \<Rightarrow> (alerts_of m u)[i := (alerts_of m u ! i)\<lparr>multiplier := mu\<rparr>]
        | None \<Rightarrow> alerts_of m u @ [\<lparr>v_stockCode = c, multiplier = mu\<rparr>]) m"
  by (simp add: upsert_volume_def getUserAlertBucket_eq split: option.splits)

lemma alerts_of_update:
  "alerts_of (AList.update u b m) u' = (if u' = u then b else alerts_of m u')"
  by (simp add: alerts_of_def update_conv')

lemma alerts_of_delete:
  "alerts_of (AList.delete u m) u' = (if u' = u then [] else alerts_of m u')"
  by (simp add: alerts_of_def delete_conv')

lemma set_update_subset: "set (AList.update k v al) \<subseteq> insert (k, v) (set al)"
  by (induction al) auto

lemma set_delete_subset: "set (AList.delete k al) \<subseteq> set al"
  by (induction al) auto

lemma all_buckets_Nil: "all_buckets Q []"
  by (simp add: all_buckets_def)

lemma all_buckets_update:
  "all_buckets Q m \<Longrightarrow> Q b \<Longrightarrow> all_buckets Q (AList.update u b m)"
  using set_update_subset[of u b m] by (auto simp: all_buckets_def)

lemma all_buckets_delete: "all_buckets Q m \<Longrightarrow> all_buckets Q (AList.delete u m)"
  using set_delete_subset[of u m] by (auto simp: all_buckets_def)



lemma all_buckets_nonempty: "all_buckets (\<lambda>b. b \<noteq> []) (keep_entries k m)"
  by (auto simp: keep_entries_def all_buckets_def)





lemma upsert_bucket_nonempty:
  "(case findIndex P b of Some i \<Rightarrow> b[i := f i] | None \<Rightarrow> b @ [x]) \<noteq> []"
  by (cases "findIndex P b") (auto dest: findIndex_Some)


subsection \<open>Invariants of every run\<close>

lemma handleEvent_price:
  "userPriceAlerts (fst (handleEvent fetch u cmd st)) =
     (case cmd of
        PriceAlertCmd c dir s \<Rightarrow>
          upsert_price (userPriceAlerts st) u c dir (parseFloat_decimal s)
      | SimplePriceAlertCmd c s \<Rightarrow>
          (case fetch c of
             Data d \<Rightarrow>
               upsert_price (userPriceAlerts st) u c
                 (if currentPrice d \<le> parseFloat_decimal s then ABOVE else BELOW)
                 (parseFloat_decimal s)
           | _ \<Rightarrow> userPriceAlerts st)
      | AlertClear \<Rightarrow> AList.delete u (userPriceAlerts st)
      | _ \<Rightarrow> userPriceAlerts st)"
  by (cases cmd) (simp_all add: handleEvent_def Let_def split: fetch_result.splits)

lemma handleEvent_change:
  "userChangeAlerts (fst (handleEvent fetch u cmd st)) =
     (case cmd of
        ChangeAlertCmd c s \<Rightarrow> upsert_change (userChangeAlerts st) u c (parseFloat_decimal s)
      | AlertClear \<Rightarrow> AList.delete u (userChangeAlerts st)
      | _ \<Rightarrow> userChangeAlerts st)"
  by (cases cmd) (simp_all add: handleEvent_def Let_def split: fetch_result.splits)

lemma handleEvent_volume:
  "userVolumeAlerts (fst (handleEvent fetch u cmd st)) =
     (case cmd of
        VolAlertCmd c s \<Rightarrow>
          (if parseFloat_decimal s \<le> 1 then userVolumeAlerts st
           else upsert_volume (userVolumeAlerts st) u c (parseFloat_decimal s))
      | VolClear \<Rightarrow> AList.delete u (userVolumeAlerts st)
      | _ \<Rightarrow> userVolumeAlerts st)"
  by (cases cmd) (simp_all add: handleEvent_def Let_def split: fetch_result.splits)

lemma handleEvent_history:
  "volumeHistory (fst (handleEvent fetch u cmd st)) = volumeHistory st"
  by (cases cmd) (simp_all add: handleEvent_def Let_def split: fetch_result.splits)

lemma upsert_price_keys: "distinct (map fst m) \<Longrightarrow> distinct (map fst (upsert_price m u c dir tp))"
  by (simp add: upsert_price_eq distinct_update)

lemma upsert_change_keys: "distinct (map fst m) \<Longrightarrow> distinct (map fst (upsert_change m u c cp))"
  by (simp add: upsert_change_eq distinct_update)

lemma upsert_volume_keys: "distinct (map fst m) \<Longrightarrow> distinct (map fst (upsert_volume m u c mu))"
  by (simp add: upsert_volume_eq distinct_update)

lemma handleEvent_keys_distinct:
  assumes "keys_distinct st"
  shows "keys_distinct (fst (handleEvent fetch u cmd st))"
  unfolding keys_distinct_def handleEvent_price handleEvent_change handleEvent_volume
  using assms
  by (simp add: keys_distinct_def upsert_price_keys upsert_change_keys upsert_volume_keys
      distinct_delete split: command.splits fetch_result.splits)





lemma upsert_price_pruned:
  "all_buckets (\<lambda>b. b \<noteq> []) m \<Longrightarrow> all_buckets (\<lambda>b. b \<noteq> []) (upsert_price m u c dir tp)"
  unfolding upsert_price_eq by (intro all_buckets_update upsert_bucket_nonempty)

lemma upsert_change_pruned:
  "all_buckets (\<lambda>b. b \<noteq> []) m \<Longrightarrow> all_buckets (\<lambda>b. b \<noteq> []) (upsert_change m u c cp)"
  unfolding upsert_change_eq by (intro all_buckets_update upsert_bucket_nonempty)

lemma upsert_volume_pruned:
  "all_buckets (\<lambda>b. b \<noteq> []) m \<Longrightarrow> all_buckets (\<lambda>b. b \<noteq> []) (upsert_volume m u c mu)"
  unfolding upsert_volume_eq by (intro all_buckets_update upsert_bucket_nonempty)

lemma handleEvent_pruned:
  assumes "pruned_state st"
  shows "pruned_state (fst (handleEvent fetch u cmd st))"
  unfolding pruned_state_def handleEvent_price handleEvent_change handleEvent_volume
  using assms
  by (simp add: pruned_state_def upsert_price_pruned upsert_change_pruned upsert_volume_pruned
      all_buckets_delete split: command.splits fetch_result.splits)



lemma handleEvent_history_bounded:
  "history_bounded st \<Longrightarrow> history_bounded (fst (handleEvent fetch u cmd st))"
  by (simp add: history_bounded_def handleEvent_history)

lemma length_append_history: "length (append_history h cv) \<le> VOLUME_HISTORY_LIMIT"
  by (simp add: append_history_def Let_def VOLUME_HISTORY_LIMIT_def)

lemma process_code_history_bounded:
  assumes "history_bounded st"
  shows "history_bounded (fst (process_code fetch deliver st c))"
proof (cases "fetch c")
  case (Data d)
  show ?thesis
    using assms
    by (simp add: history_bounded_def process_code_Data[where d = d] Data
        evaluate_code_history all_buckets_update length_append_history)
qed (simp_all add: process_code_failed assms)


lemma process_code_pruned:
  assumes "keys_distinct st" and "pruned_state st"
  shows "pruned_state (fst (process_code fetch deliver st c))"
proof (cases "fetch c")
  case (Data d)
  show ?thesis
    by (simp add: process_code_Data[where d = d] Data evaluate_code_eq[OF assms(1)]
        pruned_state_def all_buckets_nonempty)
qed (simp_all add: process_code_failed assms)


lemma run_steps_snoc: "run_steps (steps @ [s]) = do_step (run_steps steps) s"
  by (simp add: run_steps_def)

lemma run_steps_keys_distinct: "keys_distinct (run_steps steps)"
proof (induction steps rule: rev_induct)
  case Nil
  then show ?case by (simp add: run_steps_def initial_state_def keys_distinct_def)
next
  case (snoc s steps)
  then show ?case
    by (cases s) (simp_all add: run_steps_snoc handleEvent_keys_distinct process_code_keys_distinct)
qed


lemma run_steps_pruned: "pruned_state (run_steps steps)"
proof (induction steps rule: rev_induct)
  case Nil
  then show ?case by (simp add: run_steps_def initial_state_def pruned_state_def all_buckets_Nil)
next
  case (snoc s steps)
  then show ?case
    by (cases s)
      (simp_all add: run_steps_snoc handleEvent_pruned process_code_pruned run_steps_keys_distinct)
qed


lemma run_steps_history_bounded: "history_bounded (run_steps steps)"
proof (induction steps rule: rev_induct)
  case Nil
  then show ?case by (simp add: run_steps_def initial_state_def history_bounded_def all_buckets_Nil)
next
  case (snoc s steps)
  then show ?case
    by (cases s)
      (simp_all add: run_steps_snoc handleEvent_history_bounded process_code_history_bounded)
qed

lemma run_codes_as_steps:
  "fst (run_codes fetch deliver st cs) = foldl do_step st (map (Evaluate fetch deliver) cs)"
  by (induction cs arbitrary: st) (simp_all add: run_codes_Cons del: run_codes.simps(2))

lemma checkAlerts_reachable:
  "fst (checkAlerts fetch deliver (run_steps steps)) =
     run_steps (steps @ map (Evaluate fetch deliver) (stockCodes (run_steps steps)))"
  by (simp add: checkAlerts_def run_codes_as_steps run_steps_def)

subsection \<open>The history window\<close>

lemma append_history_window:
  "append_history (drop (length xs - VOLUME_HISTORY_LIMIT) xs) cv =
     drop (length (xs @ [cv]) - VOLUME_HISTORY_LIMIT) (xs @ [cv])"
proof (cases "length xs < 20")
  case True
  then show ?thesis by (simp add: append_history_def Let_def VOLUME_HISTORY_LIMIT_def)
next
  case False
  then have "Suc (length xs) - 20 = Suc (length xs - 20)" "length xs - 19 = Suc (length xs - 20)"
    by simp_all
  then show ?thesis
    using False by (simp add: append_history_def Let_def VOLUME_HISTORY_LIMIT_def)
qed

lemma do_step_history:
  "history_of (volumeHistory (do_step st s)) c =
     (case step_samples c s of
        [] \<Rightarrow> history_of (volumeHistory st) c
      | cv # _ \<Rightarrow> append_history (history_of (volumeHistory st) c) cv)"
  by (cases s)
    (auto simp: step_samples_def handleEvent_history process_code_history
      split: fetch_result.splits)

lemma step_samples_cases: "step_samples c s = [] \<or> (\<exists>cv. step_samples c s = [cv])"
  by (cases s) (auto simp: step_samples_def split: fetch_result.splits)

lemma run_steps_history:
  "history_of (volumeHistory (run_steps steps)) c =
     drop (length (samples_of c steps) - VOLUME_HISTORY_LIMIT) (samples_of c steps)"
proof (induction steps rule: rev_induct)
  case Nil
  then show ?case by (simp add: run_steps_def initial_state_def history_of_def samples_of_def)
next
  case (snoc s steps)
  from step_samples_cases[of c s] show ?case
  proof
    assume "step_samples c s = []"
    then show ?thesis using snoc by (simp add: run_steps_snoc do_step_history samples_of_def)
  next
    assume "\<exists>cv. step_samples c s = [cv]"
    then obtain cv where cv: "step_samples c s = [cv]" by blast
    have "samples_of c (steps @ [s]) = samples_of c steps @ [cv]"
      by (simp add: samples_of_def cv)
    then show ?thesis
      using snoc cv append_history_window[of "samples_of c steps" cv]
      by (simp add: run_steps_snoc do_step_history)
  qed
qed

text \<open>
  C4 (history bound): after any run, the window kept for an identifier is the last 20 of
  the samples appended for it, in arrival order, so it never holds more than 20 values
  and the oldest values are the ones dropped.
\<close>

theorem history_window_is_last_20:
  "history_of (volumeHistory (run_steps steps)) c =
     drop (length (samples_of c steps) - 20) (samples_of c steps) \<and>
   length (history_of (volumeHistory (run_steps steps)) c) \<le> 20"
  using run_steps_history[of steps c] by (simp add: VOLUME_HISTORY_LIMIT_def)

theorem history_window_is_last_20_witness:
  "samples_of ''2317'' long_run =
     [1, 2, 3, 4, 5, 6, 7, 8, 9, 10, 11, 12, 13, 14, 15, 16, 17, 18, 19, 20, 21] \<and>
   history_of (volumeHistory (run_steps long_run)) ''2317'' =
     [2, 3, 4, 5, 6, 7, 8, 9, 10, 11, 12, 13, 14, 15, 16, 17, 18, 19, 20, 21]"
proof -
  have s: "samples_of ''2317'' long_run =
      [1, 2, 3, 4, 5, 6, 7, 8, 9, 10, 11, 12, 13, 14, 15, 16, 17, 18, 19, 20, 21]"
    by (simp add: samples_of_def long_run_def step_samples_def constant_feed_def
        currentVolume_def num_or_def)
  show ?thesis
    using history_window_is_last_20[of long_run "''2317''"] by (simp add: s)
qed

subsection \<open>Counting, logs and keys\<close>






lemma key_present_iff:
  "all_buckets (\<lambda>b. b \<noteq> []) m \<Longrightarrow> (u \<in> fst ` set m) = (alerts_of m u \<noteq> [])"
proof (cases "map_of m u")
  case None
  assume "all_buckets (\<lambda>b. b \<noteq> []) m"
  have "u \<notin> fst ` set m" using None by (simp add: map_of_eq_None_iff)
  moreover have "alerts_of m u = []" using None by (simp add: alerts_of_def)
  ultimately show ?thesis by simp
next
  case (Some b)
  assume nz: "all_buckets (\<lambda>b. b \<noteq> []) m"
  from Some have "(u, b) \<in> set m" by (rule map_of_SomeD)
  then have "b \<noteq> []" "u \<in> fst ` set m" using nz by (force simp: all_buckets_def)+
  then show ?thesis using Some by (simp add: alerts_of_def)
qed

lemma findIndex_complete: "x \<in> set xs \<Longrightarrow> P x \<Longrightarrow> \<exists>i. findIndex P xs = Some i"
  by (induction xs) auto

lemma run_codes_skip_failed:
  assumes "fetch c = Threw \<or> fetch c = Null"
  shows "fst (run_codes fetch deliver st cs) = fst (run_codes fetch deliver st (removeAll c cs)) \<and>
     fst (snd (run_codes fetch deliver st cs)) =
       fst (snd (run_codes fetch deliver st (removeAll c cs)))"
proof (induction cs arbitrary: st)
  case Nil
  then show ?case by simp
next
  case (Cons c' cs)
  show ?case
  proof (cases "c' = c")
    case True
    then show ?thesis
      using Cons[of st] process_code_failed[where fetch = fetch and c = c, OF assms, of deliver st]
      by (simp add: run_codes_Cons del: run_codes.simps)
  next
    case False
    then show ?thesis
      using Cons[of "fst (process_code fetch deliver st c')"]
      by (simp add: run_codes_Cons del: run_codes.simps)
  qed
qed

subsection \<open>The pushes of one alert\<close>




subsection \<open>A concrete run\<close>

lemma parse_examples:
  "parseFloat_decimal ''640'' = 640" "parseFloat_decimal ''5'' = 5" "parseFloat_decimal ''2'' = 2"
  "parseFloat_decimal ''650'' = 650"
  by (simp_all add: parseFloat_decimal_def digits_value_def digit_of_def)

lemma evaluate_empty:
  "evaluate_code \<lparr>userPriceAlerts = [], userVolumeAlerts = [], userChangeAlerts = [],
       volumeHistory = vh\<rparr> c d =
     (\<lparr>userPriceAlerts = [], userVolumeAlerts = [], userChangeAlerts = [],
       volumeHistory = AList.update c (append_history (history_of vh c) (currentVolume d)) vh\<rparr>, [])"
  by (simp add: evaluate_code_def alert_loop_def)

lemma example_run_state:
  "run_steps example_run =
     \<lparr>userPriceAlerts =
        [(''U1'', [\<lparr>p_stockCode = ''2330'', direction = ABOVE, targetPrice = 640\<rparr>])],
      userVolumeAlerts = [(''U1'', [\<lparr>v_stockCode = ''2317'', multiplier = 2\<rparr>])],
      userChangeAlerts = [(''U1'', [\<lparr>c_stockCode = ''2330'', changePercent = 5\<rparr>])],
      volumeHistory = [(''2317'', [100, 100, 100])]\<rparr>"
  by (simp add: run_steps_def example_run_def initial_state_def process_code_def
      constant_feed_def evaluate_empty history_of_def append_history_def currentVolume_def
      num_or_def VOLUME_HISTORY_LIMIT_def handleEvent_def parse_examples upsert_price_def
      upsert_change_def upsert_volume_def getUserAlertBucket_def)

subsection \<open>Properties of one cycle\<close>















subsection \<open>Failed fetches, pruning and commands\<close>

lemma filter_on_code:
  "(\<And>a. P a \<Longrightarrow> \<not> Q a) \<Longrightarrow> filter P (filter (\<lambda>a. \<not> Q a) xs) = filter P xs"
  by (induction xs) auto

text \<open>
  C5 (fail-soft fetch): when the fetch of an identifier throws or returns null, the
  evaluation of that identifier changes nothing and pushes nothing; the cycle is the
  cycle over the remaining identifiers; and after a cycle on a reachable registry every
  alert on the failed identifier is still in place, its window is unchanged and no push
  is about it.
\<close>

theorem failed_fetch_skips_identifier:
  assumes "fetch c = Threw \<or> fetch c = Null"
    and "st = run_steps steps"
    and "st' = fst (checkAlerts fetch deliver st)"
    and "pushes = fst (snd (checkAlerts fetch deliver st))"
  shows
    "fst (process_code fetch deliver s c) = s \<and>
     fst (snd (process_code fetch deliver s c)) = [] \<and>
     st' = fst (run_codes fetch deliver st (removeAll c (stockCodes st))) \<and>
     pushes = fst (snd (run_codes fetch deliver st (removeAll c (stockCodes st)))) \<and>
     filter (\<lambda>a. p_stockCode a = c) (alerts_of (userPriceAlerts st') u) =
       filter (\<lambda>a. p_stockCode a = c) (alerts_of (userPriceAlerts st) u) \<and>
     filter (\<lambda>a. c_stockCode a = c) (alerts_of (userChangeAlerts st') u) =
       filter (\<lambda>a. c_stockCode a = c) (alerts_of (userChangeAlerts st) u) \<and>
     filter (\<lambda>a. v_stockCode a = c) (alerts_of (userVolumeAlerts st') u) =
       filter (\<lambda>a. v_stockCode a = c) (alerts_of (userVolumeAlerts st) u) \<and>
     history_of (volumeHistory st') c = history_of (volumeHistory st) c \<and>
     count_list pushes (u, PriceAlertMsg c dir tp cp) = 0 \<and>
     count_list pushes (u, ChangeAlertMsg c pct) = 0 \<and>
     count_list pushes (u, VolumeAlertMsg c cv mu) = 0"
proof -
  have kd: "keys_distinct st"
    using assms(2) by (simp add: run_steps_keys_distinct)
  have one: "fst (process_code fetch deliver s c) = s \<and>
      fst (snd (process_code fetch deliver s c)) = []"
    using assms(1) by (rule process_code_failed)
  have rest: "st' = fst (run_codes fetch deliver st (removeAll c (stockCodes st))) \<and>
      pushes = fst (snd (run_codes fetch deliver st (removeAll c (stockCodes st))))"
    using run_codes_skip_failed[where fetch = fetch and c = c, OF assms(1), of deliver st
        "stockCodes st"]
    by (simp add: assms(3) assms(4) checkAlerts_def)
  have nof: "\<not> price_fires fetch a" if "p_stockCode a = c" for a
    using assms(1) that by (auto simp: price_fires_def)
  have noc: "\<not> change_fires fetch a" if "c_stockCode a = c" for a
    using assms(1) that by (auto simp: change_fires_def)
  have nov: "\<not> volume_fires fetch vh a" if "v_stockCode a = c" for a vh
    using assms(1) that by (auto simp: volume_fires_def)
  have p: "filter (\<lambda>a. p_stockCode a = c) (alerts_of (userPriceAlerts st') u) =
      filter (\<lambda>a. p_stockCode a = c) (alerts_of (userPriceAlerts st) u)"
    unfolding assms(3) checkAlerts_price[OF kd] using nof by (rule filter_on_code)
  have q: "filter (\<lambda>a. c_stockCode a = c) (alerts_of (userChangeAlerts st') u) =
      filter (\<lambda>a. c_stockCode a = c) (alerts_of (userChangeAlerts st) u)"
    unfolding assms(3) checkAlerts_change[OF kd] using noc by (rule filter_on_code)
  have r: "filter (\<lambda>a. v_stockCode a = c) (alerts_of (userVolumeAlerts st') u) =
      filter (\<lambda>a. v_stockCode a = c) (alerts_of (userVolumeAlerts st) u)"
    unfolding assms(3) checkAlerts_volume[OF kd] using nov by (rule filter_on_code)
  have h: "history_of (volumeHistory st') c = history_of (volumeHistory st) c"
    using assms(1) by (auto simp: assms(3) checkAlerts_history)
  have none: "pushes_for fetch st u c = []"
    using assms(1) by (auto simp: pushes_for_def)
  have cnt: "count_list pushes (u, x) = 0" if "msg_code x = c" for x
    using that none by (simp add: assms(4) checkAlerts_count[OF kd])
  show ?thesis
    using one rest p q r h cnt[of "PriceAlertMsg c dir tp cp"] cnt[of "ChangeAlertMsg c pct"]
      cnt[of "VolumeAlertMsg c cv mu"]
    by simp
qed

theorem failed_fetch_skips_identifier_witness:
  "failing_feed ''2330'' = Threw \<and>
   alerts_of (userPriceAlerts
      (fst (checkAlerts failing_feed no_delivery (run_steps example_run)))) ''U1'' =
     [\<lparr>p_stockCode = ''2330'', direction = ABOVE, targetPrice = 640\<rparr>] \<and>
   alerts_of (userChangeAlerts
      (fst (checkAlerts failing_feed no_delivery (run_steps example_run)))) ''U1'' =
     [\<lparr>c_stockCode = ''2330'', changePercent = 5\<rparr>] \<and>
   alerts_of (userVolumeAlerts
      (fst (checkAlerts failing_feed no_delivery (run_steps example_run)))) ''U1'' = [] \<and>
   fst (snd (checkAlerts failing_feed no_delivery (run_steps example_run))) =
     [(''U1'', VolumeAlertMsg ''2317'' 250 2)] \<and>
   history_of (volumeHistory
      (fst (checkAlerts failing_feed no_delivery (run_steps example_run)))) ''2330'' = []"
proof -
  have f: "failing_feed ''2330'' = Threw \<or> failing_feed ''2330'' = Null"
    by (simp add: failing_feed_def)
  have codes: "removeAll ''2330'' (stockCodes (run_steps example_run)) = [''2317'']"
    by (simp add: example_run_state stockCodes_def set_add_def)
  have d: "failing_feed ''2317'' =
      Data \<lparr>parsed_z = Some 650, parsed_y = Some 600, parsed_v = Some 250\<rparr>"
    by (simp add: failing_feed_def constant_feed_def)
  note t = failed_fetch_skips_identifier[where fetch = failing_feed and c = "''2330''"
      and deliver = no_delivery and steps = example_run and u = "''U1''",
      OF f refl refl refl]
  have eq1: "fst (checkAlerts failing_feed no_delivery (run_steps example_run)) =
      fst (run_codes failing_feed no_delivery (run_steps example_run) [''2317''])"
    using t[THEN conjunct2, THEN conjunct2, THEN conjunct1] by (simp only: codes)
  have eq2: "fst (snd (checkAlerts failing_feed no_delivery (run_steps example_run))) =
      fst (snd (run_codes failing_feed no_delivery (run_steps example_run) [''2317'']))"
    using t[THEN conjunct2, THEN conjunct2, THEN conjunct2, THEN conjunct1]
    by (simp only: codes)
  have run: "run_codes failing_feed no_delivery (run_steps example_run) [''2317''] =
      (\<lparr>userPriceAlerts =
          [(''U1'', [\<lparr>p_stockCode = ''2330'', direction = ABOVE, targetPrice = 640\<rparr>])],
        userVolumeAlerts = [],
        userChangeAlerts = [(''U1'', [\<lparr>c_stockCode = ''2330'', changePercent = 5\<rparr>])],
        volumeHistory = [(''2317'', [100, 100, 100, 250])]\<rparr>,
       [(''U1'', VolumeAlertMsg ''2317'' 250 2)],
       [PushFailed ''U1'' (VolumeAlertMsg ''2317'' 250 2)])"
    by (simp add: example_run_state process_code_def d evaluate_code_def alert_loop_def
        alert_step_def history_of_def currentPrice_def percentageChange_def
        previousClose_def priceChange_def currentVolume_def num_or_def volume_trigger_def
        averageVolume_def VOLUME_MIN_SAMPLES_def append_history_def VOLUME_HISTORY_LIMIT_def
        no_delivery_def price_trigger_def change_trigger_def)
  show ?thesis
    unfolding eq1 eq2 run by (simp add: alerts_of_def history_of_def failing_feed_def)
qed

text \<open>
  C6 (pruning): in every reachable registry, and after a cycle on it, a user id is a key
  of a map exactly when the user has at least one alert of that kind; every step (a
  command or the evaluation of an identifier) keeps the maps free of empty arrays; and a
  clear command leaves the user's key absent.
\<close>

theorem registry_keys_are_pruned:
  "(u \<in> fst ` set (userPriceAlerts (run_steps steps)) \<longleftrightarrow>
      alerts_of (userPriceAlerts (run_steps steps)) u \<noteq> []) \<and>
   (u \<in> fst ` set (userVolumeAlerts (run_steps steps)) \<longleftrightarrow>
      alerts_of (userVolumeAlerts (run_steps steps)) u \<noteq> []) \<and>
   (u \<in> fst ` set (userChangeAlerts (run_steps steps)) \<longleftrightarrow>
      alerts_of (userChangeAlerts (run_steps steps)) u \<noteq> []) \<and>
   (u \<in> fst ` set (userPriceAlerts (fst (checkAlerts fetch deliver (run_steps steps)))) \<longleftrightarrow>
      alerts_of (userPriceAlerts (fst (checkAlerts fetch deliver (run_steps steps)))) u \<noteq> []) \<and>
   (u \<in> fst ` set (userVolumeAlerts (fst (checkAlerts fetch deliver (run_steps steps)))) \<longleftrightarrow>
      alerts_of (userVolumeAlerts (fst (checkAlerts fetch deliver (run_steps steps)))) u \<noteq> []) \<and>
   (u \<in> fst ` set (userChangeAlerts (fst (checkAlerts fetch deliver (run_steps steps)))) \<longleftrightarrow>
      alerts_of (userChangeAlerts (fst (checkAlerts fetch deliver (run_steps steps)))) u \<noteq> []) \<and>
   (keys_distinct st \<and> pruned_state st \<longrightarrow> pruned_state (do_step st s)) \<and>
   u \<notin> fst ` set (userPriceAlerts (fst (handleEvent fetch u AlertClear st))) \<and>
   u \<notin> fst ` set (userChangeAlerts (fst (handleEvent fetch u AlertClear st))) \<and>
   u \<notin> fst ` set (userVolumeAlerts (fst (handleEvent fetch u VolClear st)))"
proof -
  have inv: "pruned_state (run_steps xs)" for xs by (rule run_steps_pruned)
  have iff: "(u \<in> fst ` set (userPriceAlerts (run_steps xs)) \<longleftrightarrow>
        alerts_of (userPriceAlerts (run_steps xs)) u \<noteq> []) \<and>
      (u \<in> fst ` set (userVolumeAlerts (run_steps xs)) \<longleftrightarrow>
        alerts_of (userVolumeAlerts (run_steps xs)) u \<noteq> []) \<and>
      (u \<in> fst ` set (userChangeAlerts (run_steps xs)) \<longleftrightarrow>
        alerts_of (userChangeAlerts (run_steps xs)) u \<noteq> [])" for xs
    using inv[of xs] by (simp add: pruned_state_def key_present_iff)
  have step: "keys_distinct st \<and> pruned_state st \<longrightarrow> pruned_state (do_step st s)"
    by (cases s) (simp_all add: handleEvent_pruned process_code_pruned)
  have clear: "u \<notin> fst ` set (userPriceAlerts (fst (handleEvent fetch u AlertClear st)))"
    "u \<notin> fst ` set (userChangeAlerts (fst (handleEvent fetch u AlertClear st)))"
    "u \<notin> fst ` set (userVolumeAlerts (fst (handleEvent fetch u VolClear st)))"
    by (simp_all add: handleEvent_price handleEvent_change handleEvent_volume delete_notin_dom)
  show ?thesis
    using iff[of steps]
      iff[of "steps @ map (Evaluate fetch deliver) (stockCodes (run_steps steps))"]
      step clear
    by (simp only: checkAlerts_reachable simp_thms)
qed

theorem registry_keys_are_pruned_witness:
  "''U1'' \<in> fst ` set (userPriceAlerts (run_steps example_run)) \<and>
   alerts_of (userPriceAlerts (run_steps example_run)) ''U1'' \<noteq> [] \<and>
   alerts_of (userPriceAlerts
      (fst (checkAlerts (constant_feed 650 600 250) no_delivery (run_steps example_run)))) ''U1'' = [] \<and>
   ''U1'' \<notin> fst ` set (userPriceAlerts
      (fst (checkAlerts (constant_feed 650 600 250) no_delivery (run_steps example_run)))) \<and>
   keys_distinct (run_steps example_run) \<and> pruned_state (run_steps example_run) \<and>
   pruned_state (do_step (run_steps example_run)
      (Evaluate (constant_feed 650 600 250) no_delivery ''2330'')) \<and>
   ''U1'' \<notin> fst ` set (userPriceAlerts
      (fst (handleEvent (constant_feed 650 600 250) ''U1'' AlertClear (run_steps example_run))))"
proof -
  have gone: "alerts_of (userPriceAlerts
      (fst (checkAlerts (constant_feed 650 600 250) no_delivery (run_steps example_run)))) ''U1'' = []"
    unfolding checkAlerts_price[OF run_steps_keys_distinct]
    by (simp add: example_run_state alerts_of_def price_fires_def constant_feed_def
        price_trigger_def currentPrice_def num_or_def)
  have here: "''U1'' \<in> fst ` set (userPriceAlerts (run_steps example_run))"
    by (simp add: example_run_state)
  have kd: "keys_distinct (run_steps example_run)"
    by (simp add: example_run_state keys_distinct_def)
  have pr: "pruned_state (run_steps example_run)"
    by (simp add: example_run_state pruned_state_def all_buckets_def)
  show ?thesis
    using registry_keys_are_pruned[of "''U1''" example_run "constant_feed 650 600 250"
        no_delivery "run_steps example_run"
        "Evaluate (constant_feed 650 600 250) no_delivery ''2330''"]
      gone here kd pr
    by simp
qed

text \<open>
  C9 (dedup replace): the command that sets a price alert, for a user whose array already
  holds an alert on the same identifier and direction, writes the new target price into
  the first such alert and leaves the length of the array and every other alert as they
  are; when no alert has that identifier and direction it appends the new alert. The
  arrays of other users do not change. The command without a direction does the same
  with the direction it derives from the fetched price.
\<close>

theorem price_upsert_replaces_in_place:
  assumes "b = alerts_of (userPriceAlerts st) u"
    and "b' = alerts_of (userPriceAlerts (fst (handleEvent fetch u (PriceAlertCmd c dir s) st))) u"
    and "tp = parseFloat_decimal s"
  shows
    "((\<exists>a \<in> set b. p_stockCode a = c \<and> direction a = dir) \<longrightarrow>
        length b' = length b \<and>
        (\<exists>i < length b. p_stockCode (b ! i) = c \<and> direction (b ! i) = dir \<and>
           b' = b[i := (b ! i)\<lparr>targetPrice := tp\<rparr>])) \<and>
     ((\<forall>a \<in> set b. \<not> (p_stockCode a = c \<and> direction a = dir)) \<longrightarrow>
        b' = b @ [\<lparr>p_stockCode = c, direction = dir, targetPrice = tp\<rparr>]) \<and>
     (u' \<noteq> u \<longrightarrow>
        alerts_of (userPriceAlerts (fst (handleEvent fetch u (PriceAlertCmd c dir s) st))) u' =
          alerts_of (userPriceAlerts st) u') \<and>
     userPriceAlerts (fst (handleEvent fetch u (SimplePriceAlertCmd c s) st)) =
       (case fetch c of
          Data d \<Rightarrow>
            userPriceAlerts (fst (handleEvent fetch u
              (PriceAlertCmd c (if currentPrice d \<le> tp then ABOVE else BELOW) s) st))
        | _ \<Rightarrow> userPriceAlerts st)"
proof -
  let ?P = "\<lambda>alert. p_stockCode alert = c \<and> direction alert = dir"
  have b': "b' = (case findIndex ?P b of
        Some i \<Rightarrow> b[i := (b ! i)\<lparr>targetPrice := tp\<rparr>]
      | None \<Rightarrow> b @ [\<lparr>p_stockCode = c, direction = dir, targetPrice = tp\<rparr>])"
    by (simp add: assms handleEvent_price upsert_price_eq alerts_of_update split: option.splits)
  have present: "length b' = length b \<and>
      (\<exists>i < length b. p_stockCode (b ! i) = c \<and> direction (b ! i) = dir \<and>
         b' = b[i := (b ! i)\<lparr>targetPrice := tp\<rparr>])"
    if "\<exists>a \<in> set b. p_stockCode a = c \<and> direction a = dir"
  proof -
    from that obtain a where "a \<in> set b" "?P a" by blast
    then obtain i where i: "findIndex ?P b = Some i"
      using findIndex_complete[of a b ?P] by blast
    from findIndex_Some[OF i] show ?thesis by (auto simp: b' i)
  qed
  have absent: "b' = b @ [\<lparr>p_stockCode = c, direction = dir, targetPrice = tp\<rparr>]"
    if "\<forall>a \<in> set b. \<not> (p_stockCode a = c \<and> direction a = dir)"
  proof (cases "findIndex ?P b")
    case None
    then show ?thesis by (simp add: b')
  next
    case (Some i)
    from findIndex_Some[OF Some] that show ?thesis by (auto dest: nth_mem)
  qed
  have others: "u' \<noteq> u \<longrightarrow>
      alerts_of (userPriceAlerts (fst (handleEvent fetch u (PriceAlertCmd c dir s) st))) u' =
        alerts_of (userPriceAlerts st) u'"
    by (simp add: handleEvent_price upsert_price_eq alerts_of_update)
  have simple: "userPriceAlerts (fst (handleEvent fetch u (SimplePriceAlertCmd c s) st)) =
      (case fetch c of
         Data d \<Rightarrow>
           userPriceAlerts (fst (handleEvent fetch u
             (PriceAlertCmd c (if currentPrice d \<le> tp then ABOVE else BELOW) s) st))
       | _ \<Rightarrow> userPriceAlerts st)"
    by (simp add: handleEvent_price assms(3) split: fetch_result.splits)
  from present absent others simple show ?thesis by blast
qed

theorem price_upsert_replaces_in_place_witness:
  "alerts_of (userPriceAlerts (run_steps example_run)) ''U1'' =
     [\<lparr>p_stockCode = ''2330'', direction = ABOVE, targetPrice = 640\<rparr>] \<and>
   alerts_of (userPriceAlerts (fst (handleEvent (constant_feed 600 600 100) ''U1''
      (PriceAlertCmd ''2330'' ABOVE ''650'') (run_steps example_run)))) ''U1'' =
     [\<lparr>p_stockCode = ''2330'', direction = ABOVE, targetPrice = 650\<rparr>] \<and>
   alerts_of (userPriceAlerts (fst (handleEvent (constant_feed 600 600 100) ''U1''
      (PriceAlertCmd ''2330'' BELOW ''5'') (run_steps example_run)))) ''U1'' =
     [\<lparr>p_stockCode = ''2330'', direction = ABOVE, targetPrice = 640\<rparr>,
      \<lparr>p_stockCode = ''2330'', direction = BELOW, targetPrice = 5\<rparr>] \<and>
   alerts_of (userPriceAlerts (fst (handleEvent (constant_feed 600 600 100) ''U1''
      (PriceAlertCmd ''2330'' ABOVE ''650'') (run_steps example_run)))) ''U2'' = []"
proof -
  have b: "alerts_of (userPriceAlerts (run_steps example_run)) ''U1'' =
      [\<lparr>p_stockCode = ''2330'', direction = ABOVE, targetPrice = 640\<rparr>]"
    and b2: "alerts_of (userPriceAlerts (run_steps example_run)) ''U2'' = []"
    by (simp_all add: example_run_state alerts_of_def)
  show ?thesis
    using price_upsert_replaces_in_place[where fetch = "constant_feed 600 600 100"
          and c = "''2330''" and dir = ABOVE and s = "''650''" and u' = "''U2''",
          OF b[symmetric] refl refl]
      price_upsert_replaces_in_place[where fetch = "constant_feed 600 600 100"
          and c = "''2330''" and dir = BELOW and s = "''5''" and u' = "''U2''",
          OF b[symmetric] refl refl]
      b b2
    by (simp add: parse_examples)
qed

subsection \<open>The scheduler\<close>








end
